theory Spec2Isabelle
  imports Main
begin

section \<open>The comment manager of app.py\<close>

text \<open>
  A shallow embedding of the class \<open>BilibiliCommentManager\<close> of \<^verbatim>\<open>src/app.py\<close>.
  The violation ledger \<open>self.violation_users\<close> is a Python list of dictionaries read
  from a JSON file. A dictionary is modelled by a record of optional fields: a field is
  \<open>None\<close> when the key is absent, so that \<open>user_info["k"]\<close> on an absent key is the
  \<open>KeyError\<close> it is in Python. Every \<open>try ... except Exception\<close> of the source is a
  case distinction on the outcome of the guarded body, and the lines written to the
  logger are collected in the field \<open>logger\<close>.
\<close>

subsection \<open>Exceptions\<close>

datatype exn =
    KeyError string
  | ReError
  | JSONDecodeError
  | ApiError
  | OSError

subsection \<open>Ledger records\<close>

record user_info =
  username :: "string option"
  uid :: "int option"
  violation_count :: "int option"
  comment_rpids :: "int list option"
  comment_contents :: "string list option"

subsection \<open>Items of the violation check queue\<close>

text \<open>
  A reply object of the platform, as far as the manager reads it: \<open>rpid\<close>, \<open>mid\<close>,
  \<open>member.uname\<close>, \<open>content.message\<close>, and whether \<open>replies\<close> is present and
  non-empty.
\<close>

record reply =
  r_rpid :: int
  r_mid :: int
  r_uname :: string
  r_message :: string
  r_has_replies :: bool

text \<open>The dictionary built for a nested reply by \<open>_get_single_sub_comment\<close>.\<close>

record sub_comment =
  s_rpid :: int
  s_mid :: int
  s_user :: string
  s_content :: string
  s_parent_rpid :: int

text \<open>
  The queue carries \<open>{'type': 'comment', 'data': ...}\<close> and
  \<open>{'type': 'sub_comment', 'data': ...}\<close>; no other tag is ever put on it.
\<close>

datatype item = Comment reply | SubComment sub_comment

subsection \<open>Platform calls and logger lines\<close>

datatype call =
    GetComments nat
  | GetSubComments int nat
  | DeleteComment int
  | ModifyRelationBlock int

datatype log_line =
    InfoLoaded
  | ErrorLoadFailed exn
  | InfoStoreCreated
  | ErrorStoreInitFailed exn
  | InfoSaved
  | ErrorSaveFailed exn
  | ErrorCheckFailed exn
  | ErrorUpdateFailed exn
  | InfoDeletePrepare int
  | InfoDeleted int
  | ErrorDeleteFailed int exn
  | InfoBlockPrepare int
  | InfoBlocked int
  | ErrorBlockFailed int exn
  | InfoSubFetched int nat
  | ErrorSubFetchFailed int exn
  | InfoFetchingPage nat
  | InfoPageEmpty nat
  | InfoPagesFetched nat
  | ErrorFetchFailed exn
  | InfoViolationFound item
  | InfoCommentsTotal nat
  | ErrorSubTaskFailed int exn
  | InfoSubCommentsTotal nat
  | ErrorProcessFailed exn
  | DebugTraceback

subsection \<open>The persisted store\<close>

text \<open>
  The file \<^verbatim>\<open>violation_users.json\<close> either holds a JSON document, modelled by the ledger
  that \<open>json.load\<close> returns for it, or text that does not parse (for instance what an
  interrupted \<open>json.dump\<close> leaves behind).
\<close>

datatype file_content = Doc "user_info list" | Garbage

subsection \<open>The manager and its surroundings\<close>

text \<open>
  The first five fields are the attributes of the object. The last three are what it
  acts on: the lines written to the logger, the calls issued to the platform so far, and
  the content of the ledger file (\<open>None\<close> when the file does not exist).
\<close>

record manager =
  violation_words :: "string list"
  violation_users :: "user_info list"
  comment_queue :: "int list"
  blacklist_queue :: "int list"
  violation_check_queue :: "item list"
  logger :: "log_line list"
  calls :: "call list"
  violation_users_file :: "file_content option"

definition log_lines :: "log_line list \<Rightarrow> manager \<Rightarrow> manager" where
  "log_lines ls st = st\<lparr>logger := logger st @ ls\<rparr>"

subsection \<open>What the manager does not own\<close>

text \<open>
  The regular-expression engine, the platform client and the file system are not code of
  the manager. They are parameters: \<open>re_search\<close> is \<open>re.search\<close> (a match, no match, or
  an exception), each platform call answers depending on the calls issued before it, and
  \<open>file_write\<close> says how writing the ledger file goes.
\<close>

datatype write_outcome = Written | OpenFails exn | DumpFails exn


record env =
  re_search :: "string \<Rightarrow> string \<Rightarrow> exn + bool"
  get_comments_api :: "call list \<Rightarrow> nat \<Rightarrow> exn + reply list"
  get_sub_comments_api :: "call list \<Rightarrow> int \<Rightarrow> nat \<Rightarrow> exn + reply list"
  delete_api :: "call list \<Rightarrow> int \<Rightarrow> exn option"
  modify_relation_api :: "call list \<Rightarrow> int \<Rightarrow> exn option"
  file_write :: write_outcome

subsection \<open>\<open>_load_violation_users\<close> and \<open>_save_violation_users\<close>\<close>


definition save_violation_users :: "write_outcome \<Rightarrow> manager \<Rightarrow> manager" where
  "save_violation_users wr st =
     (case wr of
        Written \<Rightarrow>
          log_lines [InfoSaved] (st\<lparr>violation_users_file := Some (Doc (violation_users st))\<rparr>)
      | OpenFails e \<Rightarrow> log_lines [ErrorSaveFailed e, DebugTraceback] st
      | DumpFails e \<Rightarrow>
          log_lines [ErrorSaveFailed e, DebugTraceback] (st\<lparr>violation_users_file := Some Garbage\<rparr>))"

subsection \<open>\<open>_check_violation\<close>\<close>

text \<open>The \<open>for word in self.violation_words\<close> loop inside the \<open>try\<close>.\<close>

fun check_violation_try :: "(string \<Rightarrow> string \<Rightarrow> exn + bool) \<Rightarrow> string list \<Rightarrow> string \<Rightarrow> exn + bool" where
  "check_violation_try search [] content = Inr False"
| "check_violation_try search (word # ws) content =
     (case search word content of
        Inl e \<Rightarrow> Inl e
      | Inr True \<Rightarrow> Inr True
      | Inr False \<Rightarrow> check_violation_try search ws content)"

definition check_violation :: "env \<Rightarrow> manager \<Rightarrow> string \<Rightarrow> bool \<times> manager" where
  "check_violation ev st content =
     (case check_violation_try (re_search ev) (violation_words st) content of
        Inr b \<Rightarrow> (b, st)
      | Inl e \<Rightarrow> (False, log_lines [ErrorCheckFailed e, DebugTraceback] st))"

subsection \<open>\<open>_update_violation_user\<close>\<close>

text \<open>
  The body of the \<open>if user_info["uid"] == uid\<close> branch. The three statements mutate the
  dictionary in place, so what was done before a \<open>KeyError\<close> stays done.
\<close>

definition bump_user :: "user_info \<Rightarrow> int \<Rightarrow> string \<Rightarrow> user_info \<times> exn option" where
  "bump_user u rpid content =
     (case violation_count u of
        None \<Rightarrow> (u, Some (KeyError ''violation_count''))
      | Some c \<Rightarrow>
          let u1 = u\<lparr>violation_count := Some (c + 1)\<rparr> in
          (case comment_rpids u1 of
             None \<Rightarrow> (u1, Some (KeyError ''comment_rpids''))
           | Some rs \<Rightarrow>
               let u2 = u1\<lparr>comment_rpids := Some (rs @ [rpid])\<rparr> in
               (case comment_contents u2 of
                  None \<Rightarrow> (u2, Some (KeyError ''comment_contents''))
                | Some cs \<Rightarrow> (u2\<lparr>comment_contents := Some (cs @ [content])\<rparr>, None))))"

text \<open>The outcome of the \<open>for i, user_info in enumerate(...)\<close> loop.\<close>

datatype scan = Raised exn | Found nat | NotFound

fun scan_users :: "user_info list \<Rightarrow> nat \<Rightarrow> int \<Rightarrow> int \<Rightarrow> string \<Rightarrow> user_info list \<times> scan" where
  "scan_users [] i u rpid content = ([], NotFound)"
| "scan_users (x # xs) i u rpid content =
     (case uid x of
        None \<Rightarrow> (x # xs, Raised (KeyError ''uid''))
      | Some v \<Rightarrow>
          if v = u then
            (case bump_user x rpid content of
               (x', None) \<Rightarrow> (x' # xs, Found i)
             | (x', Some e) \<Rightarrow> (x' # xs, Raised e))
          else
            (case scan_users xs (Suc i) u rpid content of
               (xs', r) \<Rightarrow> (x # xs', r)))"

text \<open>
  The statement \<open>if self.violation_users[check_index]["violation_count"] == 3\<close> with
  the append to the block queue. The index is in range at both call sites.
\<close>

definition check_three :: "manager \<Rightarrow> nat \<Rightarrow> int \<Rightarrow> manager \<times> exn option" where
  "check_three st check_index u =
     (case violation_count (violation_users st ! check_index) of
        None \<Rightarrow> (st, Some (KeyError ''violation_count''))
      | Some c \<Rightarrow>
          if c = 3 then (st\<lparr>blacklist_queue := blacklist_queue st @ [u]\<rparr>, None)
          else (st, None))"

text \<open>The body of the \<open>try\<close>: the manager it leaves behind, and the exception if one was raised.\<close>

definition update_violation_user_try ::
  "manager \<Rightarrow> string \<Rightarrow> int \<Rightarrow> int \<Rightarrow> string \<Rightarrow> manager \<times> exn option" where
  "update_violation_user_try st uname u rpid content =
     (case scan_users (violation_users st) 0 u rpid content of
        (l, Raised e) \<Rightarrow> (st\<lparr>violation_users := l\<rparr>, Some e)
      | (l, Found user_index) \<Rightarrow> check_three (st\<lparr>violation_users := l\<rparr>) user_index u
      | (l, NotFound) \<Rightarrow>
          let l' = l @ [\<lparr>username = Some uname, uid = Some u, violation_count = Some 1,
                         comment_rpids = Some [rpid], comment_contents = Some [content]\<rparr>]
          in check_three (st\<lparr>violation_users := l'\<rparr>) (length l' - 1) u)"

definition update_violation_user :: "manager \<Rightarrow> string \<Rightarrow> int \<Rightarrow> int \<Rightarrow> string \<Rightarrow> manager" where
  "update_violation_user st uname u rpid content =
     (case update_violation_user_try st uname u rpid content of
        (st', None) \<Rightarrow> st'
      | (st', Some e) \<Rightarrow> log_lines [ErrorUpdateFailed e, DebugTraceback] st')"

subsection \<open>\<open>delete_comment\<close> and \<open>blacklist_user\<close>\<close>

definition delete_comment :: "env \<Rightarrow> manager \<Rightarrow> int \<Rightarrow> manager" where
  "delete_comment ev st rpid =
     (let st1 = log_lines [InfoDeletePrepare rpid] st;
          r = delete_api ev (calls st1) rpid;
          st2 = st1\<lparr>calls := calls st1 @ [DeleteComment rpid]\<rparr>
      in case r of
           None \<Rightarrow> log_lines [InfoDeleted rpid] st2
         | Some e \<Rightarrow> log_lines [ErrorDeleteFailed rpid e, DebugTraceback] st2)"

text \<open>
  The loop that writes the mark 999 into the first record of the user. The assignment
  \<open>user_info["violation_count"] = 999\<close> creates the key when it is absent; only the read
  of \<open>user_info["uid"]\<close> can raise.
\<close>

fun mark_blocked :: "user_info list \<Rightarrow> int \<Rightarrow> user_info list \<times> exn option" where
  "mark_blocked [] u = ([], None)"
| "mark_blocked (x # xs) u =
     (case uid x of
        None \<Rightarrow> (x # xs, Some (KeyError ''uid''))
      | Some v \<Rightarrow>
          if v = u then (x\<lparr>violation_count := Some 999\<rparr> # xs, None)
          else (case mark_blocked xs u of (xs', r) \<Rightarrow> (x # xs', r)))"

definition blacklist_user :: "env \<Rightarrow> manager \<Rightarrow> int \<Rightarrow> manager" where
  "blacklist_user ev st u =
     (let st1 = log_lines [InfoBlockPrepare u] st in
      if u \<notin> set [621240130] then
        (let r = modify_relation_api ev (calls st1) u;
             st2 = st1\<lparr>calls := calls st1 @ [ModifyRelationBlock u]\<rparr>
         in case r of
              Some e \<Rightarrow> log_lines [ErrorBlockFailed u e, DebugTraceback] st2
            | None \<Rightarrow>
                (let st3 = log_lines [InfoBlocked u] st2 in
                 case mark_blocked (violation_users st3) u of
                   (l, None) \<Rightarrow> st3\<lparr>violation_users := l\<rparr>
                 | (l, Some e) \<Rightarrow>
                     log_lines [ErrorBlockFailed u e, DebugTraceback] (st3\<lparr>violation_users := l\<rparr>)))
      else st1)"

subsection \<open>\<open>_get_single_sub_comment\<close>\<close>

definition to_sub_comment :: "int \<Rightarrow> reply \<Rightarrow> sub_comment" where
  "to_sub_comment rpid r =
     \<lparr>s_rpid = r_rpid r, s_mid = r_mid r, s_user = r_uname r, s_content = r_message r,
      s_parent_rpid = rpid\<rparr>"

text \<open>
  The \<open>while True\<close> loop. It ends when a page is empty or shorter than 20, or when the
  fetch raises; a platform that keeps answering with full pages keeps it running, so
  the model counts the iterations down and returns \<open>None\<close> when they are used up. The
  result carries the manager, the local list \<open>all_sub_comments\<close> as it stands when the
  loop is left, and the exception if the loop was left by one.
\<close>

fun sub_comment_loop ::
  "nat \<Rightarrow> env \<Rightarrow> int \<Rightarrow> nat \<Rightarrow> sub_comment list \<Rightarrow> manager
     \<Rightarrow> (manager \<times> sub_comment list \<times> exn option) option" where
  "sub_comment_loop 0 ev rpid page all_sub_comments st = None"
| "sub_comment_loop (Suc fuel) ev rpid page all_sub_comments st =
     (let r = get_sub_comments_api ev (calls st) rpid page;
          st1 = st\<lparr>calls := calls st @ [GetSubComments rpid page]\<rparr>
      in case r of
           Inl e \<Rightarrow> Some (st1, all_sub_comments, Some e)
         | Inr replies \<Rightarrow>
             if replies = [] then Some (st1, all_sub_comments, None)
             else
               (let all' = all_sub_comments @ map (to_sub_comment rpid) replies;
                    st2 = st1\<lparr>violation_check_queue :=
                            violation_check_queue st1
                              @ map (\<lambda>reply. SubComment (to_sub_comment rpid reply)) replies\<rparr>
                in if length replies = 20
                   then sub_comment_loop fuel ev rpid (page + 1) all' st2
                   else Some (st2, all', None)))"

definition get_single_sub_comment ::
  "nat \<Rightarrow> env \<Rightarrow> int \<Rightarrow> manager \<Rightarrow> (manager \<times> (exn + sub_comment list)) option" where
  "get_single_sub_comment fuel ev rpid st =
     (case sub_comment_loop fuel ev rpid 1 [] st of
        None \<Rightarrow> None
      | Some (st', all_sub_comments, None) \<Rightarrow>
          Some (log_lines [InfoSubFetched rpid (length all_sub_comments)] st', Inr all_sub_comments)
      | Some (st', all_sub_comments, Some e) \<Rightarrow>
          Some (log_lines [ErrorSubFetchFailed rpid e, DebugTraceback] st', Inl e))"

subsection \<open>\<open>get_comments\<close>\<close>

function get_comments_loop ::
  "env \<Rightarrow> int \<Rightarrow> nat \<Rightarrow> reply list \<Rightarrow> manager \<Rightarrow> manager \<times> (exn + reply list)" where
  "get_comments_loop ev max_pages page comments st =
     (let st1 = log_lines [InfoFetchingPage page] st;
          r = get_comments_api ev (calls st1) page;
          st2 = st1\<lparr>calls := calls st1 @ [GetComments page]\<rparr>
      in case r of
           Inl e \<Rightarrow> (st2, Inl e)
         | Inr replies \<Rightarrow>
             if replies = []
             then (log_lines [InfoPageEmpty page, InfoPagesFetched (page - 1)] st2, Inr comments)
             else
               (let comments' = comments @ replies;
                    st3 = st2\<lparr>violation_check_queue :=
                            violation_check_queue st2 @ map Comment replies\<rparr>
                in if int (page + 1) > max_pages then (st3, Inr comments')
                   else get_comments_loop ev max_pages (page + 1) comments' st3))"
  by pat_completeness auto
termination
  by (relation "measure (\<lambda>(ev, max_pages, page, comments, st). nat (max_pages - int page))") auto

definition get_comments :: "env \<Rightarrow> int \<Rightarrow> manager \<Rightarrow> manager \<times> (exn + reply list)" where
  "get_comments ev max_pages st =
     (case get_comments_loop ev max_pages 1 [] st of
        (st', Inl e) \<Rightarrow> (log_lines [ErrorFetchFailed e, DebugTraceback] st', Inl e)
      | (st', Inr comments) \<Rightarrow> (st', Inr comments))"

subsection \<open>\<open>_process_violations\<close>\<close>

fun item_content :: "item \<Rightarrow> string" where
  "item_content (Comment d) = r_message d"
| "item_content (SubComment d) = s_content d"

fun item_username :: "item \<Rightarrow> string" where
  "item_username (Comment d) = r_uname d"
| "item_username (SubComment d) = s_user d"

fun item_uid :: "item \<Rightarrow> int" where
  "item_uid (Comment d) = r_mid d"
| "item_uid (SubComment d) = s_mid d"

fun item_rpid :: "item \<Rightarrow> int" where
  "item_rpid (Comment d) = r_rpid d"
| "item_rpid (SubComment d) = s_rpid d"

text \<open>What the loop does with one item taken from the queue.\<close>

definition process_item :: "env \<Rightarrow> manager \<Rightarrow> item \<Rightarrow> manager" where
  "process_item ev st it =
     (case check_violation ev st (item_content it) of
        (True, st1) \<Rightarrow>
          (let st2 = log_lines [InfoViolationFound it] st1;
               st3 = update_violation_user st2 (item_username it) (item_uid it) (item_rpid it)
                       (item_content it)
           in st3\<lparr>comment_queue := comment_queue st3 @ [item_rpid it]\<rparr>)
      | (False, st1) \<Rightarrow> st1)"

primrec process_items :: "env \<Rightarrow> manager \<Rightarrow> item list \<Rightarrow> manager" where
  "process_items ev st [] = st"
| "process_items ev st (it # its) = process_items ev (process_item ev st it) its"

text \<open>
  The consumer task together with \<open>await self.violation_check_queue.join()\<close>: when the
  join returns, every item that was put on the queue has been taken, in the order it was
  put, and the queue is empty. Harvesting reads neither the ledger nor the two action
  queues, so running the consumer after the harvest leaves them as any interleaving of
  the two tasks does; only the order of the logger lines depends on the interleaving.
\<close>

definition process_violations :: "env \<Rightarrow> manager \<Rightarrow> manager" where
  "process_violations ev st =
     process_items ev (st\<lparr>violation_check_queue := []\<rparr>) (violation_check_queue st)"

subsection \<open>\<open>process_all_comments\<close>\<close>

text \<open>
  The loop that starts one task per top-level comment with nested replies. The tasks
  are run here one after the other in the order they are created; each yields the
  value or the exception that \<open>await task\<close> later delivers.
\<close>

fun start_sub_tasks ::
  "nat \<Rightarrow> env \<Rightarrow> reply list \<Rightarrow> manager
     \<Rightarrow> (manager \<times> ((exn + sub_comment list) \<times> int) list) option" where
  "start_sub_tasks fuel ev [] st = Some (st, [])"
| "start_sub_tasks fuel ev (cmt # cmts) st =
     (if r_has_replies cmt then
        (case get_single_sub_comment fuel ev (r_rpid cmt) st of
           None \<Rightarrow> None
         | Some (st1, res) \<Rightarrow>
             (case start_sub_tasks fuel ev cmts st1 of
                None \<Rightarrow> None
              | Some (st2, tasks) \<Rightarrow> Some (st2, (res, r_rpid cmt) # tasks)))
      else start_sub_tasks fuel ev cmts st)"

text \<open>The loop \<open>for task, parent_rpid in sub_comments_tasks\<close> with its \<open>try\<close>.\<close>

fun await_sub_tasks ::
  "((exn + sub_comment list) \<times> int) list \<Rightarrow> manager \<Rightarrow> sub_comment list
     \<Rightarrow> manager \<times> sub_comment list" where
  "await_sub_tasks [] st sub_comments = (st, sub_comments)"
| "await_sub_tasks ((Inr sub_list, parent_rpid) # tasks) st sub_comments =
     await_sub_tasks tasks st (sub_comments @ sub_list)"
| "await_sub_tasks ((Inl e, parent_rpid) # tasks) st sub_comments =
     await_sub_tasks tasks (log_lines [ErrorSubTaskFailed parent_rpid e, DebugTraceback] st)
       sub_comments"

primrec delete_comments :: "env \<Rightarrow> manager \<Rightarrow> int list \<Rightarrow> manager" where
  "delete_comments ev st [] = st"
| "delete_comments ev st (rpid # rpids) = delete_comments ev (delete_comment ev st rpid) rpids"

text \<open>\<open>while self.comment_queue: rpid = self.comment_queue.popleft(); ...\<close>\<close>

definition process_comment_queue :: "env \<Rightarrow> manager \<Rightarrow> manager" where
  "process_comment_queue ev st =
     delete_comments ev (st\<lparr>comment_queue := []\<rparr>) (comment_queue st)"

primrec blacklist_users :: "env \<Rightarrow> manager \<Rightarrow> int list \<Rightarrow> manager" where
  "blacklist_users ev st [] = st"
| "blacklist_users ev st (u # us) = blacklist_users ev (blacklist_user ev st u) us"

text \<open>\<open>while self.blacklist_queue: uid = self.blacklist_queue.popleft(); ...\<close>\<close>

definition process_blacklist_queue :: "env \<Rightarrow> manager \<Rightarrow> manager" where
  "process_blacklist_queue ev st =
     blacklist_users ev (st\<lparr>blacklist_queue := []\<rparr>) (blacklist_queue st)"

text \<open>
  One pass. Only \<open>get_comments\<close> lets an exception through to the outer \<open>except\<close>; the
  pass then ends with nothing saved and no action executed, and what was put on the
  check queue is still there.
\<close>

definition process_all_comments :: "nat \<Rightarrow> env \<Rightarrow> int \<Rightarrow> manager \<Rightarrow> manager option" where
  "process_all_comments fuel ev max_pages st =
     (case get_comments ev max_pages st of
        (st1, Inl e) \<Rightarrow> Some (log_lines [ErrorProcessFailed e, DebugTraceback] st1)
      | (st1, Inr comments) \<Rightarrow>
          (let st2 = log_lines [InfoCommentsTotal (length comments)] st1 in
           case start_sub_tasks fuel ev comments st2 of
             None \<Rightarrow> None
           | Some (st3, tasks) \<Rightarrow>
               (case await_sub_tasks tasks st3 [] of
                  (st4, sub_comments) \<Rightarrow>
                    (let st5 = log_lines [InfoSubCommentsTotal (length sub_comments)] st4;
                         st6 = process_violations ev st5;
                         st7 = save_violation_users (file_write ev) st6;
                         st8 = process_comment_queue ev st7
                     in Some (process_blacklist_queue ev st8)))))"

section \<open>Notions used to state the properties\<close>

subsection \<open>Reading the ledger\<close>

text \<open>The position of the first record of a user, which is the record the scan updates.\<close>

fun first_index :: "user_info list \<Rightarrow> int \<Rightarrow> nat option" where
  "first_index [] u = None"
| "first_index (x # xs) u =
     (if uid x = Some u then Some 0 else map_option Suc (first_index xs u))"

text \<open>The count stored in that record.\<close>

fun count_of :: "user_info list \<Rightarrow> int \<Rightarrow> int option" where
  "count_of [] u = None"
| "count_of (x # xs) u = (if uid x = Some u then violation_count x else count_of xs u)"

text \<open>The user ids of the records, in ledger order; the ledger is unique by user id when
  no id occurs twice.\<close>

fun uids :: "user_info list \<Rightarrow> int list" where
  "uids [] = []"
| "uids (x # xs) = (case uid x of None \<Rightarrow> uids xs | Some v \<Rightarrow> v # uids xs)"

definition unique_by_uid :: "user_info list \<Rightarrow> bool" where
  "unique_by_uid l = distinct (uids l)"

text \<open>A record with all five keys, as the manager itself writes them.\<close>

definition complete :: "user_info \<Rightarrow> bool" where
  "complete x =
     (username x \<noteq> None \<and> uid x \<noteq> None \<and> violation_count x \<noteq> None
      \<and> comment_rpids x \<noteq> None \<and> comment_contents x \<noteq> None)"

text \<open>What a successful update does to the record of a known user.\<close>

definition bumped :: "user_info \<Rightarrow> int \<Rightarrow> string \<Rightarrow> user_info" where
  "bumped x rpid content =
     x\<lparr>violation_count := map_option (\<lambda>n. n + 1) (violation_count x),
       comment_rpids := map_option (\<lambda>rs. rs @ [rpid]) (comment_rpids x),
       comment_contents := map_option (\<lambda>cs. cs @ [content]) (comment_contents x)\<rparr>"

text \<open>The record appended for an unknown user.\<close>

definition new_user :: "string \<Rightarrow> int \<Rightarrow> int \<Rightarrow> string \<Rightarrow> user_info" where
  "new_user uname u rpid content =
     \<lparr>username = Some uname, uid = Some u, violation_count = Some 1,
      comment_rpids = Some [rpid], comment_contents = Some [content]\<rparr>"

text \<open>A sequence of violations of one user, each given by user name, reply id and body.\<close>

fun record_violations :: "manager \<Rightarrow> int \<Rightarrow> (string \<times> int \<times> string) list \<Rightarrow> manager" where
  "record_violations st u [] = st"
| "record_violations st u ((uname, rpid, content) # vs) =
     record_violations (update_violation_user st uname u rpid content) u vs"

subsection \<open>Concrete surroundings for the runs below\<close>

fun is_substring :: "string \<Rightarrow> string \<Rightarrow> bool" where
  "is_substring p [] = (p = [])"
| "is_substring p (c # cs) = (take (length p) (c # cs) = p \<or> is_substring p cs)"

text \<open>
  \<open>re.search\<close> on the patterns of the runs below: \<open>(\<close> is not a regular expression
  (\<open>re.error\<close>: missing \<open>)\<close>), and a word of letters is found where it occurs in the
  text.
\<close>

definition word_search :: "string \<Rightarrow> string \<Rightarrow> exn + bool" where
  "word_search p s = (if p = ''('' then Inl ReError else Inr (is_substring p s))"

definition empty_manager :: manager where
  "empty_manager =
     \<lparr>violation_words = [], violation_users = [], comment_queue = [], blacklist_queue = [],
      violation_check_queue = [], logger = [], calls = [], violation_users_file = None\<rparr>"

text \<open>A platform without comments on which every call succeeds.\<close>

definition quiet_env :: env where
  "quiet_env =
     \<lparr>re_search = word_search,
      get_comments_api = (\<lambda>h page. Inr []),
      get_sub_comments_api = (\<lambda>h rpid page. Inr []),
      delete_api = (\<lambda>h rpid. None),
      modify_relation_api = (\<lambda>h u. None),
      file_write = Written\<rparr>"

text \<open>The manager with the single pattern \<open>spam\<close>.\<close>

definition spam_manager :: manager where
  "spam_manager = empty_manager\<lparr>violation_words := [''spam'']\<rparr>"

definition mk_reply :: "int \<Rightarrow> int \<Rightarrow> string \<Rightarrow> bool \<Rightarrow> reply" where
  "mk_reply rpid mid message has_replies =
     \<lparr>r_rpid = rpid, r_mid = mid, r_uname = ''user'', r_message = message,
      r_has_replies = has_replies\<rparr>"

text \<open>A video with three comments of user 621240130, each matching the pattern.\<close>

definition operator_env :: env where
  "operator_env =
     quiet_env\<lparr>get_comments_api :=
       (\<lambda>h page.
          if page = 1
          then Inr [mk_reply 1 621240130 ''spam'' False, mk_reply 2 621240130 ''spam'' False,
                    mk_reply 3 621240130 ''spam'' False]
          else Inr [])\<rparr>"


subsection \<open>Reading the platform trace and the task list\<close>

text \<open>The calls issued between two states of the manager.\<close>

definition issued :: "manager \<Rightarrow> manager \<Rightarrow> call list" where
  "issued st st' = drop (length (calls st)) (calls st')"

text \<open>A step that only adds calls, none of them the block of user 621240130.\<close>

definition spares_operator :: "manager \<Rightarrow> manager \<Rightarrow> bool" where
  "spares_operator st st' =
     (\<exists>new. calls st' = calls st @ new \<and> ModifyRelationBlock 621240130 \<notin> set new)"


section \<open>Auxiliary facts\<close>

subsection \<open>What the update leaves alone\<close>

lemma log_lines_simps:
  "violation_words (log_lines ls st) = violation_words st"
  "violation_users (log_lines ls st) = violation_users st"
  "comment_queue (log_lines ls st) = comment_queue st"
  "blacklist_queue (log_lines ls st) = blacklist_queue st"
  "violation_check_queue (log_lines ls st) = violation_check_queue st"
  "logger (log_lines ls st) = logger st @ ls"
  "calls (log_lines ls st) = calls st"
  "violation_users_file (log_lines ls st) = violation_users_file st"
  by (simp_all add: log_lines_def)

lemma check_three_frame:
  "violation_words (fst (check_three st i u)) = violation_words st"
  "violation_users (fst (check_three st i u)) = violation_users st"
  "comment_queue (fst (check_three st i u)) = comment_queue st"
  "violation_check_queue (fst (check_three st i u)) = violation_check_queue st"
  "logger (fst (check_three st i u)) = logger st"
  "calls (fst (check_three st i u)) = calls st"
  "violation_users_file (fst (check_three st i u)) = violation_users_file st"
  by (simp_all add: check_three_def split: option.splits)

lemma update_try_frame:
  "violation_words (fst (update_violation_user_try st n u r c)) = violation_words st"
  "comment_queue (fst (update_violation_user_try st n u r c)) = comment_queue st"
  "violation_check_queue (fst (update_violation_user_try st n u r c)) = violation_check_queue st"
  "logger (fst (update_violation_user_try st n u r c)) = logger st"
  "calls (fst (update_violation_user_try st n u r c)) = calls st"
  "violation_users_file (fst (update_violation_user_try st n u r c)) = violation_users_file st"
  by (simp_all add: update_violation_user_try_def check_three_frame Let_def split: prod.splits scan.splits)

lemma update_frame:
  "violation_words (update_violation_user st n u r c) = violation_words st"
  "comment_queue (update_violation_user st n u r c) = comment_queue st"
  "violation_check_queue (update_violation_user st n u r c) = violation_check_queue st"
  "calls (update_violation_user st n u r c) = calls st"
  "violation_users_file (update_violation_user st n u r c) = violation_users_file st"
  using update_try_frame[of st n u r c]
  by (auto simp add: update_violation_user_def log_lines_simps split: prod.splits option.splits)

lemma update_logger:
  "logger (update_violation_user st n u r c) =
     logger st @ (case snd (update_violation_user_try st n u r c) of None \<Rightarrow> [] | Some e \<Rightarrow> [ErrorUpdateFailed e, DebugTraceback])"
  using update_try_frame(4)[of st n u r c]
  by (auto simp add: update_violation_user_def log_lines_simps split: prod.splits option.splits)

subsection \<open>The scan of the ledger\<close>

lemma bump_user_uid: "uid (fst (bump_user x r c)) = uid x"
  by (simp add: bump_user_def Let_def split: option.splits)

lemma bump_user_username: "username (fst (bump_user x r c)) = username x"
  by (simp add: bump_user_def Let_def split: option.splits)

lemma bump_user_ok:
  "bump_user x r c = (x', None) \<Longrightarrow>
     x' = x\<lparr>violation_count := map_option (\<lambda>n. n + 1) (violation_count x),
            comment_rpids := map_option (\<lambda>rs. rs @ [r]) (comment_rpids x),
            comment_contents := map_option (\<lambda>cs. cs @ [c]) (comment_contents x)\<rparr>
     \<and> violation_count x \<noteq> None"
  by (auto simp add: bump_user_def Let_def split: option.splits)

lemma scan_users_uids: "map uid (fst (scan_users xs i u r c)) = map uid xs"
proof (induction xs arbitrary: i)
  case Nil show ?case by simp
next
  case (Cons x xs)
  show ?case using Cons[of "Suc i"] bump_user_uid[of x r c]
    by (auto split: option.splits prod.splits)
qed

lemma scan_users_length: "length (fst (scan_users xs i u r c)) = length xs"
  using scan_users_uids[of xs i u r c] by (metis length_map)

lemma scan_users_NotFound:
  "scan_users xs i u r c = (l, NotFound) \<Longrightarrow> l = xs \<and> count_of xs u = None \<and> Some u \<notin> set (map uid xs) \<and> None \<notin> set (map uid xs)"
proof (induction xs arbitrary: i l)
  case Nil then show ?case by simp
next
  case (Cons x xs)
  then show ?case
    by (auto split: option.splits prod.splits if_splits)
qed

lemma scan_users_Found:
  "scan_users xs i u r c = (l, Found j) \<Longrightarrow>
     i \<le> j \<and> j - i < length xs \<and> uid (xs ! (j - i)) = Some u \<and> Some u \<notin> set (map uid (take (j - i) xs)) \<and> None \<notin> set (map uid (take (j - i) xs))
     \<and> bump_user (xs ! (j - i)) r c = (l ! (j - i), None) \<and> l = xs[j - i := l ! (j - i)]"
proof (induction xs arbitrary: i l)
  case Nil then show ?case by simp
next
  case (Cons x xs)
  show ?case
  proof (cases "uid x")
    case None with Cons.prems show ?thesis by simp
  next
    case (Some v)
    show ?thesis
    proof (cases "v = u")
      case True
      with Some Cons.prems show ?thesis by (auto split: prod.splits option.splits)
    next
      case False
      with Some Cons.prems obtain l' where s: "scan_users xs (Suc i) u r c = (l', Found j)" and l: "l = x # l'"
        by (auto split: prod.splits)
      from Cons.IH[OF s] have ih: "Suc i \<le> j" "j - Suc i < length xs" "uid (xs ! (j - Suc i)) = Some u"
        "Some u \<notin> set (map uid (take (j - Suc i) xs))" "None \<notin> set (map uid (take (j - Suc i) xs))"
        "bump_user (xs ! (j - Suc i)) r c = (l' ! (j - Suc i), None)" "l' = xs[j - Suc i := l' ! (j - Suc i)]" by auto
      from ih(1) have e: "j - i = Suc (j - Suc i)" by simp
      show ?thesis unfolding e l using ih Some False by auto
    qed
  qed
qed

subsection \<open>The pattern loop\<close>

lemma check_violation_try_True:
  "(check_violation_try search ws content = Inr True) =
     (\<exists>ws1 w ws2. ws = ws1 @ w # ws2 \<and> search w content = Inr True
        \<and> (\<forall>v\<in>set ws1. search v content = Inr False))"
proof (induction ws)
  case Nil show ?case by simp
next
  case (Cons a ws)
  show ?case
  proof (cases "search a content")
    case (Inl e)
    have "\<not> (\<exists>ws1 w ws2. a # ws = ws1 @ w # ws2 \<and> search w content = Inr True
        \<and> (\<forall>v\<in>set ws1. search v content = Inr False))"
    proof
      assume "\<exists>ws1 w ws2. a # ws = ws1 @ w # ws2 \<and> search w content = Inr True
        \<and> (\<forall>v\<in>set ws1. search v content = Inr False)"
      then obtain ws1 w ws2 where h: "a # ws = ws1 @ w # ws2" "search w content = Inr True"
        "\<forall>v\<in>set ws1. search v content = Inr False" by blast
      show False using h Inl by (cases ws1) auto
    qed
    with Inl show ?thesis by simp
  next
    case (Inr b)
    show ?thesis
    proof (cases b)
      case True
      have "a # ws = [] @ a # ws \<and> search a content = Inr True \<and> (\<forall>v\<in>set []. search v content = Inr False)"
        using Inr True by simp
      then have "\<exists>ws1 w ws2. a # ws = ws1 @ w # ws2 \<and> search w content = Inr True
        \<and> (\<forall>v\<in>set ws1. search v content = Inr False)" by blast
      with Inr True show ?thesis by simp
    next
      case False
      have "(\<exists>ws1 w ws2. a # ws = ws1 @ w # ws2 \<and> search w content = Inr True
        \<and> (\<forall>v\<in>set ws1. search v content = Inr False))
        = (\<exists>ws1 w ws2. ws = ws1 @ w # ws2 \<and> search w content = Inr True
        \<and> (\<forall>v\<in>set ws1. search v content = Inr False))" (is "?L = ?R")
      proof
        assume ?L
        then obtain ws1 w ws2 where h: "a # ws = ws1 @ w # ws2" "search w content = Inr True"
        "\<forall>v\<in>set ws1. search v content = Inr False" by blast
        show ?R
        proof (cases ws1)
          case Nil with h Inr False show ?thesis by simp
        next
          case (Cons b bs)
          with h have "ws = bs @ w # ws2" "\<forall>v\<in>set bs. search v content = Inr False" by auto
          with h(2) show ?thesis by blast
        qed
      next
        assume ?R
        then obtain ws1 w ws2 where h: "ws = ws1 @ w # ws2" "search w content = Inr True"
        "\<forall>v\<in>set ws1. search v content = Inr False" by blast
        then have "a # ws = (a # ws1) @ w # ws2" "\<forall>v\<in>set (a # ws1). search v content = Inr False"
          using Inr False by auto
        with h(2) show ?L by blast
      qed
      with Inr False Cons.IH show ?thesis by simp
    qed
  qed
qed

lemma check_violation_True_state:
  "check_violation ev st content = (True, st1) \<Longrightarrow> st1 = st"
  by (auto simp add: check_violation_def split: sum.splits)

section \<open>Properties\<close>

subsection \<open>Pattern matching\<close>

text \<open>
  C6, as the code has it. \<open>_check_violation\<close> never raises, and it returns true exactly
  when some configured pattern matches the body and every pattern before it was
  evaluated without error and did not match. It returns false when the list is exhausted
  and when the evaluation of a pattern raises before a match is found.
\<close>

theorem matches_first_hit:
  "fst (check_violation ev st content) =
     (\<exists>ws1 w ws2. violation_words st = ws1 @ w # ws2 \<and> re_search ev w content = Inr True
        \<and> (\<forall>v\<in>set ws1. re_search ev v content = Inr False))"
proof -
  have "fst (check_violation ev st content)
          = (check_violation_try (re_search ev) (violation_words st) content = Inr True)"
    by (simp add: check_violation_def split: sum.splits)
  then show ?thesis by (simp only: check_violation_try_True)
qed

text \<open>The words \<open>ham\<close>, \<open>spam\<close> on the body \<open>buy spam now\<close>: the second word is the hit.\<close>

theorem matches_first_hit_witness:
  "fst (check_violation quiet_env (empty_manager\<lparr>violation_words := [''ham'', ''spam'']\<rparr>) ''buy spam now'')
   \<and> re_search quiet_env ''spam'' ''buy spam now'' = Inr True
   \<and> re_search quiet_env ''ham'' ''buy spam now'' = Inr False"
proof -
  let ?st = "empty_manager\<lparr>violation_words := [''ham'', ''spam'']\<rparr>"
  have a: "re_search quiet_env ''spam'' ''buy spam now'' = Inr True"
    by (simp add: quiet_env_def word_search_def)
  have b: "\<forall>v\<in>set [''ham'']. re_search quiet_env v ''buy spam now'' = Inr False"
    by (simp add: quiet_env_def word_search_def)
  have "violation_words ?st = [''ham''] @ ''spam'' # []"
    by (simp add: empty_manager_def)
  with a b have "\<exists>ws1 w ws2. violation_words ?st = ws1 @ w # ws2
        \<and> re_search quiet_env w ''buy spam now'' = Inr True
        \<and> (\<forall>v\<in>set ws1. re_search quiet_env v ''buy spam now'' = Inr False)" by blast
  then have "fst (check_violation quiet_env ?st ''buy spam now'')"
    using matches_first_hit [of quiet_env ?st "''buy spam now''"] by simp
  with a b show ?thesis by simp
qed

text \<open>
  C6 as stated fails when a pattern that raises stands before one that matches: with the
  patterns \<open>(\<close>, \<open>spam\<close> the search for \<open>spam\<close> succeeds on \<open>buy spam now\<close>, and the
  result is false.
\<close>

theorem matches_counterexample:
  "fst (check_violation quiet_env (empty_manager\<lparr>violation_words := [''('', ''spam'']\<rparr>) ''buy spam now'') = False
   \<and> re_search quiet_env ''spam'' ''buy spam now'' = Inr True"
  by (simp add: check_violation_def quiet_env_def empty_manager_def word_search_def)

subsection \<open>Persistence\<close>


subsection \<open>Detection of one item\<close>

text \<open>
  C9. For an item whose body matches, the reply id is appended to the removal queue
  whatever the ledger update did: when the body of \<open>_update_violation_user\<close> raises, the
  exception is written to the logger and nothing else happens to the item.
\<close>

theorem removal_despite_update_error:
  assumes "fst (check_violation ev st (item_content it))"
  shows "comment_queue (process_item ev st it) = comment_queue st @ [item_rpid it]
     \<and> logger (process_item ev st it) =
         logger st @ [InfoViolationFound it]
           @ (case snd (update_violation_user_try (log_lines [InfoViolationFound it] st)
                          (item_username it) (item_uid it) (item_rpid it) (item_content it)) of
                None \<Rightarrow> []
              | Some e \<Rightarrow> [ErrorUpdateFailed e, DebugTraceback])"
proof -
  obtain b st1 where c: "check_violation ev st (item_content it) = (b, st1)" by (cases "check_violation ev st (item_content it)")
  with assms have b: "b = True" by simp
  with c have st1: "st1 = st" using check_violation_True_state by blast
  show ?thesis using c b st1
    by (simp add: process_item_def Let_def update_frame update_logger log_lines_simps)
qed

text \<open>A matching comment of a user whose record lacks the key \<open>comment_rpids\<close>.\<close>

theorem removal_despite_update_error_witness:
  "fst (check_violation quiet_env
          (empty_manager\<lparr>violation_words := [''spam''],
             violation_users := [(new_user ''a'' 7 1 ''x'')\<lparr>comment_rpids := None\<rparr>]\<rparr>)
          (item_content (Comment \<lparr>r_rpid = 5, r_mid = 7, r_uname = ''a'', r_message = ''spam'', r_has_replies = False\<rparr>)))
   \<and> comment_queue (process_item quiet_env
          (empty_manager\<lparr>violation_words := [''spam''],
             violation_users := [(new_user ''a'' 7 1 ''x'')\<lparr>comment_rpids := None\<rparr>]\<rparr>)
          (Comment \<lparr>r_rpid = 5, r_mid = 7, r_uname = ''a'', r_message = ''spam'', r_has_replies = False\<rparr>)) = [5]
   \<and> ErrorUpdateFailed (KeyError ''comment_rpids'') \<in> set (logger (process_item quiet_env
          (empty_manager\<lparr>violation_words := [''spam''],
             violation_users := [(new_user ''a'' 7 1 ''x'')\<lparr>comment_rpids := None\<rparr>]\<rparr>)
          (Comment \<lparr>r_rpid = 5, r_mid = 7, r_uname = ''a'', r_message = ''spam'', r_has_replies = False\<rparr>)))"
proof -
  let ?st = "empty_manager\<lparr>violation_words := [''spam''],
             violation_users := [(new_user ''a'' 7 1 ''x'')\<lparr>comment_rpids := None\<rparr>]\<rparr>"
  let ?it = "Comment \<lparr>r_rpid = 5, r_mid = 7, r_uname = ''a'', r_message = ''spam'', r_has_replies = False\<rparr>"
  have h: "fst (check_violation quiet_env ?st (item_content ?it))"
    by (simp add: check_violation_def quiet_env_def empty_manager_def word_search_def)
  have e: "snd (update_violation_user_try (log_lines [InfoViolationFound ?it] ?st)
                          (item_username ?it) (item_uid ?it) (item_rpid ?it) (item_content ?it))
           = Some (KeyError ''comment_rpids'')"
    by (simp add: update_violation_user_try_def log_lines_def empty_manager_def new_user_def bump_user_def)
  show ?thesis using h removal_despite_update_error [OF h] e
    by (simp add: empty_manager_def)
qed

subsection \<open>Blocking\<close>

text \<open>
  C10. When the platform's block call raises, \<open>blacklist_user\<close> leaves every record of
  the ledger as it was: the mark 999 is written only after the call has returned.
\<close>

theorem block_error_leaves_ledger:
  "modify_relation_api ev (calls st) u = Some e \<Longrightarrow>
     violation_users (blacklist_user ev st u) = violation_users st"
  by (simp add: blacklist_user_def Let_def log_lines_simps)

text \<open>A platform that refuses every block call.\<close>

theorem block_error_leaves_ledger_witness:
  "modify_relation_api (quiet_env\<lparr>modify_relation_api := (\<lambda>h u. Some ApiError)\<rparr>)
       (calls (empty_manager\<lparr>violation_users := [new_user ''a'' 7 1 ''x'']\<rparr>)) 7 = Some ApiError
   \<and> violation_users (blacklist_user (quiet_env\<lparr>modify_relation_api := (\<lambda>h u. Some ApiError)\<rparr>)
        (empty_manager\<lparr>violation_users := [new_user ''a'' 7 1 ''x'']\<rparr>) 7)
     = violation_users (empty_manager\<lparr>violation_users := [new_user ''a'' 7 1 ''x'']\<rparr>)"
proof -
  have h: "modify_relation_api (quiet_env\<lparr>modify_relation_api := (\<lambda>h u. Some ApiError)\<rparr>)
       (calls (empty_manager\<lparr>violation_users := [new_user ''a'' 7 1 ''x'']\<rparr>)) 7 = Some ApiError"
    by simp
  show ?thesis using h block_error_leaves_ledger [OF h] by simp
qed

section \<open>The ledger update\<close>

subsection \<open>Auxiliary facts about the first record of a user\<close>

lemma first_index_None: "(first_index xs u = None) = (Some u \<notin> set (map uid xs))"
  by (induction xs) auto

lemma first_index_at:
  "j < length xs \<Longrightarrow> uid (xs ! j) = Some u \<Longrightarrow> Some u \<notin> set (map uid (take j xs))
     \<Longrightarrow> first_index xs u = Some j"
proof (induction xs arbitrary: j)
  case Nil then show ?case by simp
next
  case (Cons x xs)
  show ?case
  proof (cases j)
    case 0 with Cons.prems show ?thesis by simp
  next
    case (Suc k)
    with Cons.prems have "first_index xs u = Some k" "uid x \<noteq> Some u"
      using Cons.IH[of k] by auto
    with Suc show ?thesis by simp
  qed
qed

lemma count_of_at:
  "j < length xs \<Longrightarrow> uid (xs ! j) = Some u \<Longrightarrow> Some u \<notin> set (map uid (take j xs))
     \<Longrightarrow> count_of xs u = violation_count (xs ! j)"
proof (induction xs arbitrary: j)
  case Nil then show ?case by simp
next
  case (Cons x xs)
  show ?case
  proof (cases j)
    case 0 with Cons.prems show ?thesis by simp
  next
    case (Suc k)
    with Cons.prems have "count_of xs u = violation_count (xs ! k)" "uid x \<noteq> Some u"
      using Cons.IH[of k] by auto
    with Suc show ?thesis by simp
  qed
qed

lemma count_of_append:
  "count_of (xs @ ys) u = (if Some u \<in> set (map uid xs) then count_of xs u else count_of ys u)"
  by (induction xs) auto

lemma count_of_None_absent: "Some u \<notin> set (map uid xs) \<Longrightarrow> count_of xs u = None"
  by (induction xs) auto

lemma bump_user_bumped: "bump_user x r c = (x', None) \<Longrightarrow> x' = bumped x r c \<and> violation_count x \<noteq> None"
  using bump_user_ok[of x r c x'] by (simp add: bumped_def)

lemma first_index_count:
  "first_index xs u = Some j \<Longrightarrow>
     j < length xs \<and> uid (xs ! j) = Some u \<and> count_of xs u = violation_count (xs ! j)"
proof (induction xs arbitrary: j)
  case Nil then show ?case by simp
next
  case (Cons x xs)
  then show ?case by (cases "uid x = Some u") auto
qed

lemma count_of_update:
  "first_index xs u = Some j \<Longrightarrow> uid y = Some u \<Longrightarrow> count_of (xs[j := y]) u = violation_count y"
proof (induction xs arbitrary: j)
  case Nil then show ?case by simp
next
  case (Cons x xs)
  then show ?case by (cases "uid x = Some u") auto
qed

lemma bumped_simps:
  "uid (bumped x r c) = uid x"
  "username (bumped x r c) = username x"
  "violation_count (bumped x r c) = map_option (\<lambda>n. n + 1) (violation_count x)"
  by (simp_all add: bumped_def)

lemma update_ledger_queue:
  "violation_users (update_violation_user st n u r c) = violation_users (fst (update_violation_user_try st n u r c))"
  "blacklist_queue (update_violation_user st n u r c) = blacklist_queue (fst (update_violation_user_try st n u r c))"
  by (simp_all add: update_violation_user_def log_lines_simps split: prod.splits option.splits)

lemma eval_defs:
  "violation_users empty_manager = []" "blacklist_queue empty_manager = []"
  "comment_queue empty_manager = []" "logger empty_manager = []" "calls empty_manager = []"
  "violation_words empty_manager = []" "violation_check_queue empty_manager = []"
  "violation_users_file empty_manager = None"
  by (simp_all add: empty_manager_def)

subsection \<open>The three ways an update ends\<close>

text \<open>
  The body of the \<open>try\<close> either raises while it scans the ledger, or appends a record
  for an unknown user, or updates the first record of a known user.
\<close>

lemma update_try_cases:
  assumes "update_violation_user_try st n u r c = (st', res)"
  shows "(\<exists>e. res = Some e \<and> snd (scan_users (violation_users st) 0 u r c) = Raised e
            \<and> blacklist_queue st' = blacklist_queue st
            \<and> map uid (violation_users st') = map uid (violation_users st))
       \<or> (res = None \<and> first_index (violation_users st) u = None
            \<and> None \<notin> set (map uid (violation_users st))
            \<and> violation_users st' = violation_users st @ [new_user n u r c]
            \<and> blacklist_queue st' = blacklist_queue st)
       \<or> (res = None \<and> (\<exists>j k. first_index (violation_users st) u = Some j
            \<and> j < length (violation_users st)
            \<and> violation_count (violation_users st ! j) = Some k
            \<and> violation_users st' = (violation_users st)[j := bumped (violation_users st ! j) r c]
            \<and> blacklist_queue st' = blacklist_queue st @ (if k = 2 then [u] else [])))"
proof -
  let ?l = "violation_users st"
  obtain l sc where sc: "scan_users ?l 0 u r c = (l, sc)" by (cases "scan_users ?l 0 u r c")
  have uids: "map uid l = map uid ?l" using scan_users_uids[of ?l 0 u r c] sc by simp
  show ?thesis
  proof (cases sc)
    case (Raised e)
    with sc assms uids show ?thesis by (auto simp add: update_violation_user_try_def)
  next
    case NotFound
    from scan_users_NotFound[OF sc[unfolded NotFound]]
    have l: "l = ?l" and abs: "Some u \<notin> set (map uid ?l)" and nn: "None \<notin> set (map uid ?l)" by auto
    have fi: "first_index ?l u = None" using abs by (simp add: first_index_None)
    have "st' = st\<lparr>violation_users := ?l @ [new_user n u r c]\<rparr> \<and> res = None"
      using assms sc NotFound l
      by (auto simp add: update_violation_user_try_def check_three_def new_user_def Let_def)
    with fi nn show ?thesis by simp
  next
    case (Found j)
    from scan_users_Found[OF sc[unfolded Found]]
    have j: "j < length ?l" and uj: "uid (?l ! j) = Some u"
      and before: "Some u \<notin> set (map uid (take j ?l))"
      and b: "bump_user (?l ! j) r c = (l ! j, None)" and l: "l = ?l[j := l ! j]" by auto
    from bump_user_bumped[OF b] obtain k where lj: "l ! j = bumped (?l ! j) r c"
      and k: "violation_count (?l ! j) = Some k" by auto
    have fi: "first_index ?l u = Some j" using first_index_at[OF j uj before] .
    have l': "l = ?l[j := bumped (?l ! j) r c]" using l lj by simp
    have vc: "violation_count (l ! j) = Some (k + 1)" using lj k by (simp add: bumped_def)
    have "res = None \<and> violation_users st' = l
        \<and> blacklist_queue st' = blacklist_queue st @ (if k = 2 then [u] else [])"
      using assms sc Found vc
      by (auto simp add: update_violation_user_try_def check_three_def)
    with fi j k l' show ?thesis by auto
  qed
qed

lemma update_count_of:
  assumes "snd (update_violation_user_try st n u r c) = None"
  shows "count_of (violation_users (update_violation_user st n u r c)) u =
           Some (case count_of (violation_users st) u of None \<Rightarrow> 1 | Some k \<Rightarrow> k + 1)"
proof -
  obtain st' res where t: "update_violation_user_try st n u r c = (st', res)"
    by (cases "update_violation_user_try st n u r c")
  with assms have res: "res = None" by simp
  from update_try_cases[OF t] res
  consider (app) "first_index (violation_users st) u = None"
      "violation_users st' = violation_users st @ [new_user n u r c]"
    | (upd) j k where "first_index (violation_users st) u = Some j"
      "violation_count (violation_users st ! j) = Some k"
      "violation_users st' = (violation_users st)[j := bumped (violation_users st ! j) r c]"
    by auto
  then show ?thesis
  proof cases
    case app
    then have "Some u \<notin> set (map uid (violation_users st))" by (simp add: first_index_None)
    with app t show ?thesis
      by (simp add: update_ledger_queue count_of_append count_of_None_absent new_user_def)
  next
    case upd
    from first_index_count[OF upd(1)] upd(2)
    have a: "uid (violation_users st ! j) = Some u" "count_of (violation_users st) u = Some k" by auto
    have "count_of (violation_users st') u = Some (k + 1)"
      using count_of_update[OF upd(1), of "bumped (violation_users st ! j) r c"] a upd
      by (simp add: bumped_simps)
    with a t show ?thesis by (simp add: update_ledger_queue)
  qed
qed

lemma update_blacklist_queue:
  "blacklist_queue (update_violation_user st n u r c) =
     blacklist_queue st @
       (if snd (update_violation_user_try st n u r c) = None
           \<and> count_of (violation_users st) u = Some 2 then [u] else [])"
proof -
  obtain st' res where t: "update_violation_user_try st n u r c = (st', res)"
    by (cases "update_violation_user_try st n u r c")
  from update_try_cases[OF t]
  consider (fail) e where "res = Some e" "blacklist_queue st' = blacklist_queue st"
    | (app) "res = None" "first_index (violation_users st) u = None"
        "blacklist_queue st' = blacklist_queue st"
    | (upd) j k where "res = None" "first_index (violation_users st) u = Some j"
      "violation_count (violation_users st ! j) = Some k"
      "blacklist_queue st' = blacklist_queue st @ (if k = 2 then [u] else [])"
    by auto
  then show ?thesis
  proof cases
    case fail with t show ?thesis by (simp add: update_ledger_queue)
  next
    case app
    then have "count_of (violation_users st) u = None"
      by (simp add: first_index_None count_of_None_absent)
    with app t show ?thesis by (simp add: update_ledger_queue)
  next
    case upd
    from first_index_count[OF upd(2)] upd(3)
    have "count_of (violation_users st) u = Some k" by auto
    with upd t show ?thesis by (simp add: update_ledger_queue)
  qed
qed

lemma scan_complete:
  "list_all complete xs \<Longrightarrow> snd (scan_users xs i u r c) \<noteq> Raised e"
proof (induction xs arbitrary: i)
  case Nil then show ?case by simp
next
  case (Cons x xs)
  from Cons.prems have cx: "complete x" and cxs: "list_all complete xs" by auto
  from cx obtain v k rs cs where f: "uid x = Some v" "violation_count x = Some k"
    "comment_rpids x = Some rs" "comment_contents x = Some cs"
    by (auto simp add: complete_def)
  show ?case
  proof (cases "v = u")
    case True
    with f show ?thesis by (simp add: bump_user_def)
  next
    case False
    with f Cons.IH[OF cxs, of "Suc i"] show ?thesis
      by (cases "scan_users xs (Suc i) u r c") simp
  qed
qed

lemma update_try_complete:
  assumes "list_all complete (violation_users st)"
  shows "snd (update_violation_user_try st n u r c) = None"
proof -
  obtain st' res where t: "update_violation_user_try st n u r c = (st', res)"
    by (cases "update_violation_user_try st n u r c")
  from update_try_cases[OF t] scan_complete[OF assms, of 0 u r c] have "res = None" by auto
  with t show ?thesis by simp
qed

lemma update_ledger:
  assumes "snd (update_violation_user_try st n u r c) = None"
  shows "violation_users (update_violation_user st n u r c) =
     (case first_index (violation_users st) u of
        None \<Rightarrow> violation_users st @ [new_user n u r c]
      | Some j \<Rightarrow> (violation_users st)[j := bumped (violation_users st ! j) r c])"
proof -
  obtain st' res where t: "update_violation_user_try st n u r c = (st', res)"
    by (cases "update_violation_user_try st n u r c")
  with assms have "res = None" by simp
  with update_try_cases[OF t] t show ?thesis by (auto simp add: update_ledger_queue)
qed

subsection \<open>Escalation\<close>




subsection \<open>What a recorded violation changes\<close>

text \<open>
  C2, as the code has it. On a ledger whose records carry all five keys the update runs
  to the end, and an update that runs to the end does this: for an unknown user it
  appends a record with count 1, the reply id, the body and the user name of the call;
  for a known user it raises the count of the first record of that user by one and
  appends the reply id and the body to it. The user name of an existing record is not
  touched.
\<close>

theorem record_violation_effect:
  "(list_all complete (violation_users st) \<longrightarrow>
      snd (update_violation_user_try st n u r c) = None)
   \<and> (snd (update_violation_user_try st n u r c) = None \<longrightarrow>
        violation_users (update_violation_user st n u r c) =
          (case first_index (violation_users st) u of
             None \<Rightarrow>
               violation_users st @
                 [\<lparr>username = Some n, uid = Some u, violation_count = Some 1,
                   comment_rpids = Some [r], comment_contents = Some [c]\<rparr>]
           | Some j \<Rightarrow>
               (violation_users st)
                 [j := (violation_users st ! j)
                    \<lparr>violation_count := map_option (\<lambda>k. k + 1) (violation_count (violation_users st ! j)),
                     comment_rpids := map_option (\<lambda>rs. rs @ [r]) (comment_rpids (violation_users st ! j)),
                     comment_contents := map_option (\<lambda>cs. cs @ [c]) (comment_contents (violation_users st ! j))\<rparr>]))"
proof -
  have a: "list_all complete (violation_users st) \<longrightarrow>
      snd (update_violation_user_try st n u r c) = None"
    using update_try_complete[of st n u r c] by simp
  have b: "snd (update_violation_user_try st n u r c) = None \<longrightarrow>
        violation_users (update_violation_user st n u r c) =
          (case first_index (violation_users st) u of
             None \<Rightarrow> violation_users st @ [new_user n u r c]
           | Some j \<Rightarrow> (violation_users st)[j := bumped (violation_users st ! j) r c])"
    using update_ledger[of st n u r c] by simp
  from a b show ?thesis unfolding new_user_def bumped_def by blast
qed

text \<open>A second violation of user 7 under a new name, and a first violation of user 8.\<close>

theorem record_violation_effect_witness:
  "list_all complete (violation_users (empty_manager\<lparr>violation_users := [new_user ''old'' 7 1 ''x'']\<rparr>))
   \<and> snd (update_violation_user_try (empty_manager\<lparr>violation_users := [new_user ''old'' 7 1 ''x'']\<rparr>)
              ''new'' 7 2 ''y'') = None
   \<and> violation_users (update_violation_user
         (empty_manager\<lparr>violation_users := [new_user ''old'' 7 1 ''x'']\<rparr>) ''new'' 7 2 ''y'')
       = [\<lparr>username = Some ''old'', uid = Some 7, violation_count = Some 2,
            comment_rpids = Some [1, 2], comment_contents = Some [''x'', ''y'']\<rparr>]
   \<and> violation_users (update_violation_user
         (empty_manager\<lparr>violation_users := [new_user ''old'' 7 1 ''x'']\<rparr>) ''bob'' 8 3 ''z'')
       = [new_user ''old'' 7 1 ''x'',
          \<lparr>username = Some ''bob'', uid = Some 8, violation_count = Some 1,
            comment_rpids = Some [3], comment_contents = Some [''z'']\<rparr>]"
proof -
  let ?st = "empty_manager\<lparr>violation_users := [new_user ''old'' 7 1 ''x'']\<rparr>"
  have c: "list_all complete (violation_users ?st)"
    by (simp add: complete_def new_user_def)
  from record_violation_effect [of ?st "''new''" 7 2 "''y''"] c
  have a: "snd (update_violation_user_try ?st ''new'' 7 2 ''y'') = None" by blast
  from record_violation_effect [of ?st "''bob''" 8 3 "''z''"] c
  have b: "snd (update_violation_user_try ?st ''bob'' 8 3 ''z'') = None" by blast
  show ?thesis
    using c a b record_violation_effect [of ?st "''new''" 7 2 "''y''"]
      record_violation_effect [of ?st "''bob''" 8 3 "''z''"]
    by (simp add: new_user_def)
qed

text \<open>
  C2 as stated fails on the user name: the record of user 7 keeps the name \<open>old\<close> when
  the call carries \<open>new\<close>. And on a record without the key \<open>comment_rpids\<close> the count
  is raised while neither the reply id nor the body is appended.
\<close>

theorem record_violation_effect_counterexample:
  "username (violation_users (update_violation_user
      (empty_manager\<lparr>violation_users := [new_user ''old'' 7 1 ''x'']\<rparr>) ''new'' 7 2 ''y'') ! 0)
     = Some ''old''
   \<and> violation_users (update_violation_user
      (empty_manager\<lparr>violation_users := [(new_user ''old'' 7 1 ''x'')\<lparr>comment_rpids := None\<rparr>]\<rparr>)
      ''old'' 7 2 ''y'')
     = [\<lparr>username = Some ''old'', uid = Some 7, violation_count = Some 2,
          comment_rpids = None, comment_contents = Some [''x'']\<rparr>]"
  by (simp add: update_violation_user_def update_violation_user_try_def new_user_def
      bump_user_def check_three_def log_lines_def eval_defs)

subsection \<open>At most one record per user\<close>

lemma uids_concat:
  "uids xs = concat (map (\<lambda>x. case x of None \<Rightarrow> [] | Some v \<Rightarrow> [v]) (map uid xs))"
  by (induction xs) (auto split: option.splits)

lemma uids_cong: "map uid xs = map uid ys \<Longrightarrow> uids xs = uids ys"
  by (simp only: uids_concat)

lemma set_uids: "(v \<in> set (uids xs)) = (Some v \<in> set (map uid xs))"
  by (induction xs) (auto split: option.splits)

lemma uids_snoc: "uids (xs @ [x]) = uids xs @ (case uid x of None \<Rightarrow> [] | Some v \<Rightarrow> [v])"
  by (induction xs) (auto split: option.splits)

lemma mark_blocked_uids: "map uid (fst (mark_blocked xs v)) = map uid xs"
  by (induction xs) (auto split: option.splits prod.splits)

lemma map_uid_update:
  "j < length xs \<Longrightarrow> uid y = uid (xs ! j) \<Longrightarrow> map uid (xs[j := y]) = map uid xs"
  by (simp add: map_update list_update_same_conv)

lemma update_unique:
  assumes "unique_by_uid (violation_users st)"
  shows "unique_by_uid (violation_users (update_violation_user st n u r c))"
proof -
  obtain st' res where t: "update_violation_user_try st n u r c = (st', res)"
    by (cases "update_violation_user_try st n u r c")
  have l: "violation_users (update_violation_user st n u r c) = violation_users st'"
    using t by (simp add: update_ledger_queue)
  from update_try_cases[OF t]
  consider (same) "map uid (violation_users st') = map uid (violation_users st)"
    | (app) "first_index (violation_users st) u = None"
        "violation_users st' = violation_users st @ [new_user n u r c]"
    | (upd) j where "j < length (violation_users st)"
        "violation_users st' = (violation_users st)[j := bumped (violation_users st ! j) r c]"
    by auto
  then show ?thesis
  proof cases
    case same
    from uids_cong[OF same] assms l show ?thesis by (simp add: unique_by_uid_def)
  next
    case app
    from app(1) have "u \<notin> set (uids (violation_users st))"
      by (simp add: first_index_None set_uids)
    with app(2) assms l show ?thesis
      by (simp add: unique_by_uid_def uids_snoc new_user_def)
  next
    case upd
    have "map uid (violation_users st') = map uid (violation_users st)"
      unfolding upd(2) using upd(1) by (simp add: map_uid_update bumped_simps)
    from uids_cong[OF this] assms l show ?thesis by (simp add: unique_by_uid_def)
  qed
qed

lemma blacklist_user_ledger:
  "violation_users (blacklist_user ev st v) = violation_users st
   \<or> violation_users (blacklist_user ev st v) = fst (mark_blocked (violation_users st) v)"
  by (auto simp add: blacklist_user_def Let_def log_lines_simps split: option.splits prod.splits)

text \<open>
  C5. If no user id occurs twice in the ledger, then none does after
  \<open>_update_violation_user\<close>, after the marking loop, and after \<open>blacklist_user\<close> as a
  whole.
\<close>

theorem ledger_stays_unique:
  assumes "unique_by_uid (violation_users st)"
  shows "unique_by_uid (violation_users (update_violation_user st n u r c))
       \<and> unique_by_uid (fst (mark_blocked (violation_users st) v))
       \<and> unique_by_uid (violation_users (blacklist_user ev st v))"
proof -
  have m: "unique_by_uid (fst (mark_blocked (violation_users st) v))"
    using assms uids_cong[OF mark_blocked_uids[of "violation_users st" v]]
    by (simp add: unique_by_uid_def)
  have b: "unique_by_uid (violation_users (blacklist_user ev st v))"
    using blacklist_user_ledger[of ev st v] m assms by auto
  from update_unique[OF assms] m b show ?thesis by simp
qed

text \<open>A ledger of users 7 and 8: a violation of user 9 and the block of user 8.\<close>

theorem ledger_stays_unique_witness:
  "unique_by_uid (violation_users
      (empty_manager\<lparr>violation_users := [new_user ''a'' 7 1 ''x'', new_user ''b'' 8 2 ''y'']\<rparr>))
   \<and> unique_by_uid (violation_users (update_violation_user
      (empty_manager\<lparr>violation_users := [new_user ''a'' 7 1 ''x'', new_user ''b'' 8 2 ''y'']\<rparr>)
      ''c'' 9 3 ''z''))
   \<and> unique_by_uid (fst (mark_blocked (violation_users
      (empty_manager\<lparr>violation_users := [new_user ''a'' 7 1 ''x'', new_user ''b'' 8 2 ''y'']\<rparr>)) 8))
   \<and> unique_by_uid (violation_users (blacklist_user quiet_env
      (empty_manager\<lparr>violation_users := [new_user ''a'' 7 1 ''x'', new_user ''b'' 8 2 ''y'']\<rparr>) 8))
   \<and> uids (violation_users (update_violation_user
      (empty_manager\<lparr>violation_users := [new_user ''a'' 7 1 ''x'', new_user ''b'' 8 2 ''y'']\<rparr>)
      ''c'' 9 3 ''z'')) = [7, 8, 9]"
proof -
  let ?st = "empty_manager\<lparr>violation_users := [new_user ''a'' 7 1 ''x'', new_user ''b'' 8 2 ''y'']\<rparr>"
  have h: "unique_by_uid (violation_users ?st)"
    by (simp add: unique_by_uid_def new_user_def)
  have e: "uids (violation_users (update_violation_user ?st ''c'' 9 3 ''z'')) = [7, 8, 9]"
    by (simp add: update_violation_user_def update_violation_user_try_def new_user_def
      check_three_def eval_defs)
  show ?thesis using h e ledger_stays_unique [OF h, of "''c''" 9 3 "''z''" 8 quiet_env] by simp
qed

subsection \<open>The count over a sequence of violations\<close>

lemma complete_bumped: "complete x \<Longrightarrow> complete (bumped x r c)"
  by (auto simp add: complete_def bumped_def)

lemma update_keeps_complete:
  assumes "list_all complete (violation_users st)"
  shows "list_all complete (violation_users (update_violation_user st n u r c))"
proof -
  have l: "violation_users (update_violation_user st n u r c) =
     (case first_index (violation_users st) u of
        None \<Rightarrow> violation_users st @ [new_user n u r c]
      | Some j \<Rightarrow> (violation_users st)[j := bumped (violation_users st ! j) r c])"
    using update_ledger[OF update_try_complete[OF assms]] .
  show ?thesis
  proof (cases "first_index (violation_users st) u")
    case None
    with l assms show ?thesis by (simp add: complete_def new_user_def)
  next
    case (Some j)
    from first_index_count[OF Some] have j: "j < length (violation_users st)" by simp
    with assms have "complete (violation_users st ! j)" by (simp add: list_all_length)
    then have "complete (bumped (violation_users st ! j) r c)" by (rule complete_bumped)
    with assms have "list_all complete ((violation_users st)[j := bumped (violation_users st ! j) r c])"
      by (auto simp add: list_all_iff dest: set_update_subset_insert[THEN subsetD])
    with l Some show ?thesis by simp
  qed
qed

lemma record_violations_count:
  assumes "list_all complete (violation_users st)"
  shows "count_of (violation_users (record_violations st u vs)) u =
           (case count_of (violation_users st) u of
              None \<Rightarrow> if vs = [] then None else Some (int (length vs))
            | Some k \<Rightarrow> Some (k + int (length vs)))"
  using assms
proof (induction vs arbitrary: st)
  case Nil
  then show ?case by (simp split: option.splits)
next
  case (Cons v vs)
  obtain n r c where v: "v = (n, r, c)" by (cases v)
  let ?st1 = "update_violation_user st n u r c"
  have c1: "list_all complete (violation_users ?st1)" using update_keeps_complete[OF Cons.prems] .
  have k1: "count_of (violation_users ?st1) u =
      Some (case count_of (violation_users st) u of None \<Rightarrow> 1 | Some k \<Rightarrow> k + 1)"
    using update_count_of[OF update_try_complete[OF Cons.prems]] .
  from Cons.IH[OF c1] k1 show ?case unfolding v
    by (simp split: option.splits)
qed

lemma record_violations_queue:
  assumes "list_all complete (violation_users st)"
  shows "blacklist_queue (record_violations st u vs) =
           blacklist_queue st @
             (if (case count_of (violation_users st) u of None \<Rightarrow> 0 | Some k \<Rightarrow> k) < 3
                 \<and> 3 \<le> (case count_of (violation_users st) u of None \<Rightarrow> 0 | Some k \<Rightarrow> k)
                          + int (length vs)
              then [u] else [])"
  using assms
proof (induction vs arbitrary: st)
  case Nil
  then show ?case by simp
next
  case (Cons v vs)
  obtain n r c where v: "v = (n, r, c)" by (cases v)
  let ?st1 = "update_violation_user st n u r c"
  have t: "snd (update_violation_user_try st n u r c) = None"
    using update_try_complete[OF Cons.prems] .
  have c1: "list_all complete (violation_users ?st1)" using update_keeps_complete[OF Cons.prems] .
  have k1: "count_of (violation_users ?st1) u =
      Some (case count_of (violation_users st) u of None \<Rightarrow> 1 | Some k \<Rightarrow> k + 1)"
    using update_count_of[OF t] .
  have q1: "blacklist_queue ?st1 =
     blacklist_queue st @ (if count_of (violation_users st) u = Some 2 then [u] else [])"
    using update_blacklist_queue[of st n u r c] t by simp
  show ?case unfolding v using Cons.IH[OF c1] k1 q1
    by (cases "count_of (violation_users st) u") auto
qed

lemma mark_blocked_complete:
  "list_all complete xs \<Longrightarrow>
     mark_blocked xs v =
       (case first_index xs v of
          None \<Rightarrow> xs
        | Some j \<Rightarrow> xs[j := (xs ! j)\<lparr>violation_count := Some 999\<rparr>], None)"
proof (induction xs)
  case Nil then show ?case by simp
next
  case (Cons x xs)
  from Cons.prems obtain w where w: "uid x = Some w" by (auto simp add: complete_def)
  from Cons.prems have "list_all complete xs" by simp
  note ih = Cons.IH[OF this]
  show ?case using w ih by (cases "first_index xs v") auto
qed

lemma blacklist_user_marks:
  assumes "list_all complete (violation_users st)" "v \<noteq> 621240130"
    "modify_relation_api ev (calls st) v = None" "count_of (violation_users st) v = Some k"
  shows "count_of (violation_users (blacklist_user ev st v)) v = Some 999
       \<and> list_all complete (violation_users (blacklist_user ev st v))
       \<and> blacklist_queue (blacklist_user ev st v) = blacklist_queue st"
proof -
  let ?l = "violation_users st"
  from assms(4) have "Some v \<in> set (map uid ?l)"
    using count_of_None_absent[of v ?l] by auto
  then obtain j where j: "first_index ?l v = Some j"
    using first_index_None[of ?l v] by auto
  from first_index_count[OF j] have jl: "j < length ?l" and uj: "uid (?l ! j) = Some v" by auto
  let ?y = "(?l ! j)\<lparr>violation_count := Some 999\<rparr>"
  have m: "mark_blocked ?l v = (?l[j := ?y], None)"
    using mark_blocked_complete[OF assms(1), of v] j by simp
  have l': "violation_users (blacklist_user ev st v) = ?l[j := ?y]"
    and q: "blacklist_queue (blacklist_user ev st v) = blacklist_queue st"
    using assms(2,3) m by (simp_all add: blacklist_user_def Let_def log_lines_simps)
  have c: "count_of (?l[j := ?y]) v = Some 999"
    using count_of_update[OF j, of ?y] uj by simp
  from assms(1) jl have "complete (?l ! j)" by (simp add: list_all_length)
  then have "complete ?y" by (simp add: complete_def)
  with assms(1) have "list_all complete (?l[j := ?y])"
    by (auto simp add: list_all_iff dest: set_update_subset_insert[THEN subsetD])
  with l' c q show ?thesis by simp
qed

text \<open>
  C3, as the code has it. On a ledger whose records carry all five keys, \<open>N\<close> recorded
  violations of a user raise the count of the user's record by \<open>N\<close> (from nothing to
  \<open>N\<close> for a user without a record), and the user is queued for blocking once, by the
  violation that makes the count 3. When the block call has succeeded the count is the
  mark 999; the mark is not fixed: \<open>N\<close> further violations make it \<open>999 + N\<close>, and none
  of them queues the user again.
\<close>

theorem count_follows_violations:
  assumes "list_all complete (violation_users st)"
  shows "count_of (violation_users (record_violations st u vs)) u =
           (case count_of (violation_users st) u of
              None \<Rightarrow> if vs = [] then None else Some (int (length vs))
            | Some k \<Rightarrow> Some (k + int (length vs)))
       \<and> blacklist_queue (record_violations st u vs) =
           blacklist_queue st @
             (if (case count_of (violation_users st) u of None \<Rightarrow> 0 | Some k \<Rightarrow> k) < 3
                 \<and> 3 \<le> (case count_of (violation_users st) u of None \<Rightarrow> 0 | Some k \<Rightarrow> k)
                          + int (length vs)
              then [u] else [])
       \<and> (u \<noteq> 621240130 \<and> modify_relation_api ev (calls st) u = None
            \<and> count_of (violation_users st) u = Some k \<longrightarrow>
          count_of (violation_users (blacklist_user ev st u)) u = Some 999
          \<and> count_of (violation_users (record_violations (blacklist_user ev st u) u vs)) u
              = Some (999 + int (length vs))
          \<and> blacklist_queue (record_violations (blacklist_user ev st u) u vs) = blacklist_queue st)"
proof -
  have "count_of (violation_users (blacklist_user ev st u)) u = Some 999
          \<and> count_of (violation_users (record_violations (blacklist_user ev st u) u vs)) u
              = Some (999 + int (length vs))
          \<and> blacklist_queue (record_violations (blacklist_user ev st u) u vs) = blacklist_queue st"
    if h: "u \<noteq> 621240130" "modify_relation_api ev (calls st) u = None"
      "count_of (violation_users st) u = Some k"
  proof -
    from blacklist_user_marks[OF assms h]
    have a: "count_of (violation_users (blacklist_user ev st u)) u = Some 999"
      and b: "list_all complete (violation_users (blacklist_user ev st u))"
      and c: "blacklist_queue (blacklist_user ev st u) = blacklist_queue st" by auto
    from record_violations_count[OF b, of u vs] record_violations_queue[OF b, of u vs] a c
    show ?thesis by simp
  qed
  with record_violations_count[OF assms, of u vs] record_violations_queue[OF assms, of u vs]
  show ?thesis by blast
qed

text \<open>Three violations of a new user, the block, and two more violations.\<close>

theorem count_follows_violations_witness:
  "list_all complete (violation_users empty_manager)
   \<and> count_of (violation_users
        (record_violations empty_manager 7 [(''a'', 1, ''x''), (''a'', 2, ''y''), (''a'', 3, ''z'')])) 7
       = Some 3
   \<and> blacklist_queue
        (record_violations empty_manager 7 [(''a'', 1, ''x''), (''a'', 2, ''y''), (''a'', 3, ''z'')])
       = [7]
   \<and> list_all complete (violation_users
        (empty_manager\<lparr>violation_users := [(new_user ''a'' 7 1 ''x'')\<lparr>violation_count := Some 3\<rparr>]\<rparr>))
   \<and> modify_relation_api quiet_env (calls
        (empty_manager\<lparr>violation_users := [(new_user ''a'' 7 1 ''x'')\<lparr>violation_count := Some 3\<rparr>]\<rparr>)) 7
       = None
   \<and> count_of (violation_users
        (empty_manager\<lparr>violation_users := [(new_user ''a'' 7 1 ''x'')\<lparr>violation_count := Some 3\<rparr>]\<rparr>)) 7
       = Some 3
   \<and> count_of (violation_users (blacklist_user quiet_env
        (empty_manager\<lparr>violation_users := [(new_user ''a'' 7 1 ''x'')\<lparr>violation_count := Some 3\<rparr>]\<rparr>) 7)) 7
       = Some 999
   \<and> count_of (violation_users (record_violations (blacklist_user quiet_env
        (empty_manager\<lparr>violation_users := [(new_user ''a'' 7 1 ''x'')\<lparr>violation_count := Some 3\<rparr>]\<rparr>) 7)
        7 [(''a'', 4, ''w''), (''a'', 5, ''v'')])) 7
       = Some 1001
   \<and> blacklist_queue (record_violations (blacklist_user quiet_env
        (empty_manager\<lparr>violation_users := [(new_user ''a'' 7 1 ''x'')\<lparr>violation_count := Some 3\<rparr>]\<rparr>) 7)
        7 [(''a'', 4, ''w''), (''a'', 5, ''v'')])
       = []"
proof -
  let ?s3 = "empty_manager\<lparr>violation_users := [(new_user ''a'' 7 1 ''x'')\<lparr>violation_count := Some 3\<rparr>]\<rparr>"
  have a: "list_all complete (violation_users empty_manager)" by (simp add: eval_defs)
  have b: "list_all complete (violation_users ?s3)" by (simp add: complete_def new_user_def)
  have c: "modify_relation_api quiet_env (calls ?s3) 7 = None" by (simp add: quiet_env_def)
  have d: "count_of (violation_users ?s3) 7 = Some 3" by (simp add: new_user_def)
  show ?thesis
    using a b c d
      count_follows_violations [OF a, of 7 "[(''a'', 1, ''x''), (''a'', 2, ''y''), (''a'', 3, ''z'')]" quiet_env 0]
      count_follows_violations [OF b, of 7 "[(''a'', 4, ''w''), (''a'', 5, ''v'')]" quiet_env 3]
    by (simp add: eval_defs)
qed

text \<open>
  C3 as stated fails after the block: user 7 is blocked and marked with 999, and the next
  recorded violation makes the count 1000.
\<close>

theorem count_follows_violations_counterexample:
  "count_of (violation_users (blacklist_user quiet_env
      (empty_manager\<lparr>violation_users := [(new_user ''a'' 7 1 ''x'')\<lparr>violation_count := Some 3\<rparr>]\<rparr>) 7)) 7
     = Some 999
   \<and> count_of (violation_users (update_violation_user (blacklist_user quiet_env
      (empty_manager\<lparr>violation_users := [(new_user ''a'' 7 1 ''x'')\<lparr>violation_count := Some 3\<rparr>]\<rparr>) 7)
      ''a'' 7 4 ''w'')) 7
     = Some 1000"
  by (simp add: blacklist_user_def quiet_env_def update_violation_user_def
      update_violation_user_try_def new_user_def bump_user_def check_three_def log_lines_def
      eval_defs)

section \<open>One pass\<close>

subsection \<open>The calls a pass issues\<close>

lemma spares_refl: "spares_operator st st"
  by (simp add: spares_operator_def)

lemma spares_trans: "spares_operator st st1 \<Longrightarrow> spares_operator st1 st2 \<Longrightarrow> spares_operator st st2"
  by (auto simp add: spares_operator_def)

lemma spares_same: "calls st' = calls st \<Longrightarrow> spares_operator st st'"
  by (simp add: spares_operator_def)

lemma spares_step:
  "calls st' = calls st @ [c] \<Longrightarrow> c \<noteq> ModifyRelationBlock 621240130 \<Longrightarrow> spares_operator st st'"
  by (simp add: spares_operator_def)

lemma spares_left: "calls st0 = calls st \<Longrightarrow> spares_operator st st' \<Longrightarrow> spares_operator st0 st'"
  by (simp add: spares_operator_def)

lemma spares_right: "calls st'' = calls st' \<Longrightarrow> spares_operator st st' \<Longrightarrow> spares_operator st st''"
  by (simp add: spares_operator_def)

lemma spares_issued: "spares_operator st st' \<Longrightarrow> ModifyRelationBlock 621240130 \<notin> set (issued st st')"
  by (auto simp add: spares_operator_def issued_def)

lemma get_comments_loop_spares:
  "spares_operator st (fst (get_comments_loop ev mp page comments st))"
proof (induction ev mp page comments st rule: get_comments_loop.induct)
  case (1 ev mp page comments st)
  let ?st1 = "log_lines [InfoFetchingPage page] st"
  let ?st2 = "?st1\<lparr>calls := calls ?st1 @ [GetComments page]\<rparr>"
  have s2: "spares_operator st ?st2"
    by (rule spares_step[where c="GetComments page"]) (simp_all add: log_lines_simps)
  show ?case
  proof (cases "get_comments_api ev (calls ?st1) page")
    case (Inl e)
    then show ?thesis using s2 by (subst get_comments_loop.simps) (simp add: Let_def)
  next
    case (Inr replies)
    show ?thesis
    proof (cases "replies = []")
      case True
      have "spares_operator st (log_lines [InfoPageEmpty page, InfoPagesFetched (page - 1)] ?st2)"
        by (rule spares_right[OF _ s2]) (simp add: log_lines_simps)
      with Inr True show ?thesis by (subst get_comments_loop.simps) (simp add: Let_def)
    next
      case False
      let ?st3 = "?st2\<lparr>violation_check_queue := violation_check_queue ?st2 @ map Comment replies\<rparr>"
      have s3: "spares_operator st ?st3" by (rule spares_right[OF _ s2]) simp
      show ?thesis
      proof (cases "int (page + 1) > mp")
        case True
        with Inr False s3 show ?thesis by (subst get_comments_loop.simps) (simp add: Let_def)
      next
        case gt: False
        have "spares_operator ?st3 (fst (get_comments_loop ev mp (page + 1) (comments @ replies) ?st3))"
          using "1.IH"[OF refl refl refl Inr False refl refl gt] .
        from spares_trans[OF s3 this] Inr False gt show ?thesis
          by (subst get_comments_loop.simps) (simp add: Let_def)
      qed
    qed
  qed
qed

lemma get_comments_spares: "spares_operator st (fst (get_comments ev mp st))"
proof -
  obtain st' r where g: "get_comments_loop ev mp 1 [] st = (st', r)"
    by (cases "get_comments_loop ev mp 1 [] st")
  from get_comments_loop_spares[of st ev mp 1 "[]"] g have s: "spares_operator st st'" by simp
  show ?thesis
  proof (cases r)
    case (Inl e)
    have "spares_operator st (log_lines [ErrorFetchFailed e, DebugTraceback] st')"
      by (rule spares_right[OF _ s]) (simp add: log_lines_simps)
    with g Inl show ?thesis by (simp add: get_comments_def)
  next
    case (Inr cs)
    with g s show ?thesis by (simp add: get_comments_def)
  qed
qed

lemma sub_comment_loop_spares:
  "sub_comment_loop fuel ev rpid page all st = Some (st', all', out) \<Longrightarrow> spares_operator st st'"
proof (induction fuel arbitrary: page all st)
  case 0 then show ?case by simp
next
  case (Suc fuel)
  let ?st1 = "st\<lparr>calls := calls st @ [GetSubComments rpid page]\<rparr>"
  have s1: "spares_operator st ?st1"
    by (rule spares_step[where c="GetSubComments rpid page"]) simp_all
  show ?case
  proof (cases "get_sub_comments_api ev (calls st) rpid page")
    case (Inl e)
    with Suc.prems s1 show ?thesis by (auto simp add: Let_def)
  next
    case (Inr replies)
    let ?st2 = "?st1\<lparr>violation_check_queue := violation_check_queue ?st1
                  @ map (\<lambda>reply. SubComment (to_sub_comment rpid reply)) replies\<rparr>"
    have s2: "spares_operator st ?st2" by (rule spares_right[OF _ s1]) simp
    show ?thesis
    proof (cases "replies = []")
      case True
      with Suc.prems Inr s1 show ?thesis by (auto simp add: Let_def)
    next
      case False
      show ?thesis
      proof (cases "length replies = 20")
        case True
        with Suc.prems Inr False
        have "sub_comment_loop fuel ev rpid (page + 1) (all @ map (to_sub_comment rpid) replies) ?st2
                = Some (st', all', out)" by (simp add: Let_def)
        from spares_trans[OF s2 Suc.IH[OF this]] show ?thesis .
      next
        case ne: False
        with Suc.prems Inr False s2 show ?thesis by (auto simp add: Let_def)
      qed
    qed
  qed
qed

lemma get_single_spares:
  assumes "get_single_sub_comment fuel ev rpid st = Some (st', res)"
  shows "spares_operator st st'"
proof -
  from assms obtain st0 all out where l: "sub_comment_loop fuel ev rpid 1 [] st = Some (st0, all, out)"
    and c: "calls st' = calls st0"
    by (auto simp add: get_single_sub_comment_def log_lines_simps split: option.splits prod.splits)
  from spares_right[OF c sub_comment_loop_spares[OF l]] show ?thesis .
qed

lemma start_sub_tasks_spares:
  "start_sub_tasks fuel ev cmts st = Some (st', tasks) \<Longrightarrow> spares_operator st st'"
proof (induction cmts arbitrary: st tasks)
  case Nil then show ?case by (simp add: spares_refl)
next
  case (Cons cmt cmts)
  show ?case
  proof (cases "r_has_replies cmt")
    case False
    with Cons show ?thesis by simp
  next
    case True
    with Cons.prems obtain st1 res ts where
      g: "get_single_sub_comment fuel ev (r_rpid cmt) st = Some (st1, res)"
      and r: "start_sub_tasks fuel ev cmts st1 = Some (st', ts)"
      by (auto split: option.splits prod.splits)
    from spares_trans[OF get_single_spares[OF g] Cons.IH[OF r]] show ?thesis .
  qed
qed

lemma await_sub_tasks_calls: "calls (fst (await_sub_tasks tasks st subs)) = calls st"
  by (induction tasks st subs rule: await_sub_tasks.induct) (simp_all add: log_lines_simps)

lemma check_violation_frame:
  "violation_words (snd (check_violation ev st c)) = violation_words st"
  "violation_users (snd (check_violation ev st c)) = violation_users st"
  "comment_queue (snd (check_violation ev st c)) = comment_queue st"
  "blacklist_queue (snd (check_violation ev st c)) = blacklist_queue st"
  "violation_check_queue (snd (check_violation ev st c)) = violation_check_queue st"
  "calls (snd (check_violation ev st c)) = calls st"
  "violation_users_file (snd (check_violation ev st c)) = violation_users_file st"
  by (simp_all add: check_violation_def log_lines_simps split: sum.splits)

lemma process_item_frame:
  "violation_words (process_item ev st it) = violation_words st"
  "violation_check_queue (process_item ev st it) = violation_check_queue st"
  "calls (process_item ev st it) = calls st"
  "violation_users_file (process_item ev st it) = violation_users_file st"
  using check_violation_frame[of ev st "item_content it"]
  by (auto simp add: process_item_def Let_def update_frame log_lines_simps split: prod.splits bool.splits)

lemma process_items_frame:
  "violation_words (process_items ev st its) = violation_words st"
  "violation_check_queue (process_items ev st its) = violation_check_queue st"
  "calls (process_items ev st its) = calls st"
  "violation_users_file (process_items ev st its) = violation_users_file st"
  by (induction its arbitrary: st) (simp_all add: process_item_frame)

lemma delete_comment_calls: "calls (delete_comment ev st rpid) = calls st @ [DeleteComment rpid]"
  by (simp add: delete_comment_def Let_def log_lines_simps split: option.splits)

lemma delete_comments_spares: "spares_operator st (delete_comments ev st rpids)"
proof (induction rpids arbitrary: st)
  case Nil show ?case by (simp add: spares_refl)
next
  case (Cons rpid rpids)
  have "spares_operator st (delete_comment ev st rpid)"
    by (rule spares_step[OF delete_comment_calls]) simp
  from spares_trans[OF this Cons.IH] show ?case by simp
qed

lemma blacklist_user_calls:
  "calls (blacklist_user ev st u) = calls st @ (if u = 621240130 then [] else [ModifyRelationBlock u])"
  by (simp add: blacklist_user_def Let_def log_lines_simps split: option.splits prod.splits)

lemma blacklist_users_calls:
  "calls (blacklist_users ev st us) = calls st @ map ModifyRelationBlock (filter (\<lambda>u. u \<noteq> 621240130) us)"
  by (induction us arbitrary: st) (simp_all add: blacklist_user_calls)

lemma process_blacklist_queue_calls:
  "calls (process_blacklist_queue ev st) =
     calls st @ map ModifyRelationBlock (filter (\<lambda>u. u \<noteq> 621240130) (blacklist_queue st))"
  by (simp add: process_blacklist_queue_def blacklist_users_calls)

lemma process_blacklist_queue_spares: "spares_operator st (process_blacklist_queue ev st)"
  by (auto simp add: spares_operator_def process_blacklist_queue_calls)

lemma process_all_comments_spares:
  assumes "process_all_comments fuel ev mp st = Some st'"
  shows "spares_operator st st'"
proof -
  obtain st1 r where g: "get_comments ev mp st = (st1, r)" by (cases "get_comments ev mp st")
  from get_comments_spares[of st ev mp] g have s1: "spares_operator st st1" by simp
  show ?thesis
  proof (cases r)
    case (Inl e)
    with assms g have "st' = log_lines [ErrorProcessFailed e, DebugTraceback] st1"
      by (simp add: process_all_comments_def)
    with s1 show ?thesis by (auto intro: spares_right simp add: log_lines_simps)
  next
    case (Inr comments)
    let ?st2 = "log_lines [InfoCommentsTotal (length comments)] st1"
    have s2: "spares_operator st ?st2" by (rule spares_right[OF _ s1]) (simp add: log_lines_simps)
    from assms g Inr obtain st3 tasks where
      t: "start_sub_tasks fuel ev comments ?st2 = Some (st3, tasks)"
      by (auto simp add: process_all_comments_def Let_def split: option.splits)
    obtain st4 subs where a: "await_sub_tasks tasks st3 [] = (st4, subs)"
      by (cases "await_sub_tasks tasks st3 []")
    let ?st5 = "log_lines [InfoSubCommentsTotal (length subs)] st4"
    let ?st6 = "process_violations ev ?st5"
    let ?st7 = "save_violation_users (file_write ev) ?st6"
    let ?st8 = "process_comment_queue ev ?st7"
    from assms g Inr t a have st': "st' = process_blacklist_queue ev ?st8"
      by (simp add: process_all_comments_def Let_def)
    have s3: "spares_operator st st3" using spares_trans[OF s2 start_sub_tasks_spares[OF t]] .
    have c4: "calls st4 = calls st3" using await_sub_tasks_calls[of tasks st3 "[]"] a by simp
    have c7: "calls ?st7 = calls st3"
      using c4 by (simp add: save_violation_users_def process_violations_def process_items_frame
          log_lines_simps split: write_outcome.splits)
    have s7: "spares_operator st ?st7" by (rule spares_right[OF c7 s3])
    have s8: "spares_operator ?st7 ?st8"
      unfolding process_comment_queue_def
      by (rule spares_left[OF _ delete_comments_spares]) simp
    from spares_trans[OF spares_trans[OF s7 s8] process_blacklist_queue_spares[of ?st8 ev]] st'
    show ?thesis by simp
  qed
qed

subsection \<open>The allow-listed user\<close>

text \<open>
  C4, as the code has it. The exception for user 621240130 is made by the block
  executor, not by the detector: \<open>blacklist_user\<close> called for that user issues no platform
  call and leaves the ledger alone, draining the block queue never issues the block call
  for that user, and no pass does. The user is queued for blocking like any other.
\<close>

theorem operator_never_blocked:
  "calls (blacklist_user ev st 621240130) = calls st
   \<and> violation_users (blacklist_user ev st 621240130) = violation_users st
   \<and> ModifyRelationBlock 621240130 \<notin> set (issued st (process_blacklist_queue ev st))
   \<and> (process_all_comments fuel ev max_pages st = Some st' \<longrightarrow>
        ModifyRelationBlock 621240130 \<notin> set (issued st st'))"
proof -
  have a: "calls (blacklist_user ev st 621240130) = calls st" by (simp add: blacklist_user_calls)
  have b: "violation_users (blacklist_user ev st 621240130) = violation_users st"
    by (simp add: blacklist_user_def log_lines_simps)
  have c: "ModifyRelationBlock 621240130 \<notin> set (issued st (process_blacklist_queue ev st))"
    by (rule spares_issued[OF process_blacklist_queue_spares])
  have d: "process_all_comments fuel ev max_pages st = Some st' \<longrightarrow>
        ModifyRelationBlock 621240130 \<notin> set (issued st st')"
    using spares_issued[OF process_all_comments_spares] by blast
  from a b c d show ?thesis by blast
qed

text \<open>
  A pass over three matching comments of user 621240130: the user reaches count 3 and is
  queued, the three comments are removed, and no block call is issued.
\<close>

theorem operator_never_blocked_witness:
  "process_all_comments 3 operator_env 5 spam_manager \<noteq> None
   \<and> ModifyRelationBlock 621240130
        \<notin> set (issued spam_manager (the (process_all_comments 3 operator_env 5 spam_manager)))
   \<and> count_of (violation_users (the (process_all_comments 3 operator_env 5 spam_manager)))
        621240130 = Some 3
   \<and> blacklist_queue (process_violations operator_env
        (fst (get_comments operator_env 5 spam_manager))) = [621240130]"
proof -
  have a: "process_all_comments 3 operator_env 5 spam_manager \<noteq> None" by code_simp
  then obtain st' where s: "process_all_comments 3 operator_env 5 spam_manager = Some st'"
    by blast
  from operator_never_blocked [of operator_env spam_manager 3 5 st'] s
  have b: "ModifyRelationBlock 621240130 \<notin> set (issued spam_manager st')" by blast
  have c: "count_of (violation_users (the (process_all_comments 3 operator_env 5 spam_manager)))
        621240130 = Some 3" by code_simp
  have d: "blacklist_queue (process_violations operator_env
        (fst (get_comments operator_env 5 spam_manager))) = [621240130]" by code_simp
  from a b c d s show ?thesis by simp
qed

text \<open>
  C4 as stated fails on the queue: the third violation of user 621240130 appends the user
  to the block queue, in a single update and in the pass above.
\<close>

theorem operator_queued_counterexample:
  "blacklist_queue (update_violation_user
      (empty_manager\<lparr>violation_users :=
         [(new_user ''op'' 621240130 1 ''x'')\<lparr>violation_count := Some 2\<rparr>]\<rparr>)
      ''op'' 621240130 3 ''z'') = [621240130]
   \<and> blacklist_queue (process_violations operator_env
        (fst (get_comments operator_env 5 spam_manager))) = [621240130]"
  by code_simp

subsection \<open>A failed fetch of nested replies\<close>















end
